theory Spec2Isabelle
  imports Complex_Main
begin

section \<open>Fractional differentiation of a monomial (frac_diff.py)\<close>

text \<open>
  The core of \<^verbatim>\<open>frac_diff.py\<close> maps a monomial \<open>const * x^power\<close> and an order
  \<open>a\<close> to the monomial of its \<open>a\<close>-th derivative. Python's \<^verbatim>\<open>float\<close> arguments are
  modelled as exact reals (type \<open>real\<close>): rounding, overflow and the non-finite values
  \<^verbatim>\<open>inf\<close> and \<^verbatim>\<open>nan\<close> are outside this model. What the code raises is a value of
  type \<open>error\<close>; a normal return is \<open>Inr\<close>.
\<close>

datatype error = ValueError | ZeroDivisionError

subsection \<open>The classifier\<close>

text \<open>\<^verbatim>\<open>float.is_integer\<close>: the value has no fractional part.\<close>

definition is_integer :: "real \<Rightarrow> bool" where
  "is_integer x = (of_int \<lfloor>x\<rfloor> = x)"

text \<open>\<^verbatim>\<open>def is_negative_integer(x): return x.is_integer() and x < 0\<close>\<close>

definition is_negative_integer :: "real \<Rightarrow> bool" where
  "is_negative_integer x = (is_integer x \<and> x < 0)"

subsection \<open>The Gamma function\<close>

text \<open>
  \<^verbatim>\<open>from math import gamma\<close>: the function is the standard library's, not the
  repository's. Its value is the Gamma function, here in Euler's form as the limit of
  \<open>n^x n! / (x (x + 1) \<dots> (x + n))\<close>.
\<close>

definition Gamma_seq :: "real \<Rightarrow> nat \<Rightarrow> real" where
  "Gamma_seq x n = real n powr x * fact n / (\<Prod>k\<le>n. x + real k)"

definition Gamma :: "real \<Rightarrow> real" where
  "Gamma x = lim (Gamma_seq x)"

text \<open>
  Modelled from the spec: \<^verbatim>\<open>math.gamma\<close> is not part of the repository. The spec
  (section 4.2, failure semantics) says that it raises a domain failure at a non-positive
  integer argument, a pole; Python raises \<^verbatim>\<open>ValueError: math domain error\<close> there.
  Everywhere else it returns the value of the Gamma function.
\<close>

definition gamma :: "real \<Rightarrow> error + real" where
  "gamma x = (if is_integer x \<and> x \<le> 0 then Inl ValueError else Inr (Gamma x))"

subsection \<open>The differentiator\<close>

text \<open>\<^verbatim>\<open>int(a)\<close> on a float truncates towards zero.\<close>

definition py_int :: "real \<Rightarrow> int" where
  "py_int a = (if 0 \<le> a then \<lfloor>a\<rfloor> else \<lceil>a\<rceil>)"

text \<open>
  \<^verbatim>\<open>for i in range(int(a)): const *= power; power -= 1\<close>, the first argument
  counting the iterations that remain.
\<close>

fun diff_loop :: "nat \<Rightarrow> real \<Rightarrow> real \<Rightarrow> real \<times> real" where
  "diff_loop 0 const pwr = (const, pwr)"
| "diff_loop (Suc n) const pwr = diff_loop n (const * pwr) (pwr - 1)"

text \<open>
  \<^verbatim>\<open>for i in range(-int(a)): const /= power+1; power += 1\<close>. A float division by
  zero raises \<^verbatim>\<open>ZeroDivisionError\<close>.
\<close>

fun integ_loop :: "nat \<Rightarrow> real \<Rightarrow> real \<Rightarrow> error + real \<times> real" where
  "integ_loop 0 const pwr = Inr (const, pwr)"
| "integ_loop (Suc n) const pwr =
     (if pwr + 1 = 0 then Inl ZeroDivisionError
      else integ_loop n (const / (pwr + 1)) (pwr + 1))"

text \<open>The divisors \<open>power + 1\<close> that the integration loop meets, in order.\<close>

fun integ_divisors :: "nat \<Rightarrow> real \<Rightarrow> real list" where
  "integ_divisors 0 pwr = []"
| "integ_divisors (Suc n) pwr = (pwr + 1) # integ_divisors n (pwr + 1)"

text \<open>
  \<^verbatim>\<open>range(n)\<close> is empty for \<open>n \<le> 0\<close>, hence \<open>nat\<close>. The parameter \<^verbatim>\<open>power\<close> is
  written \<open>pwr\<close>, \<open>power\<close> being HOL's exponentiation. In the last branch Python
  evaluates \<^verbatim>\<open>const * gamma(power+1) / gamma(power-a+1)\<close> from left to right: the first
  call of \<^verbatim>\<open>gamma\<close>, the product, the second call, the division.
\<close>

definition analytical_frac_diff :: "real \<Rightarrow> real \<Rightarrow> real \<Rightarrow> error + real \<times> real" where
  "analytical_frac_diff const pwr a =
     (if is_negative_integer pwr \<and> is_negative_integer (pwr - a) then
        (if 0 \<le> a then Inr (diff_loop (nat (py_int a)) const pwr)
         else integ_loop (nat (- py_int a)) const pwr)
      else if is_negative_integer pwr \<or> is_negative_integer (pwr - a) then
        Inr (0, 0)
      else
        (case gamma (pwr + 1) of
           Inl e \<Rightarrow> Inl e
         | Inr g1 \<Rightarrow>
             (case gamma (pwr - a + 1) of
                Inl e \<Rightarrow> Inl e
              | Inr g2 \<Rightarrow>
                  if g2 = 0 then Inl ZeroDivisionError
                  else Inr (const * g1 / g2, pwr - a))))"

subsection \<open>The power rule, as the specification words it\<close>


definition spec_integ_step :: "real \<times> real \<Rightarrow> real \<times> real" where
  "spec_integ_step m = (fst m / (snd m + 1), snd m + 1)"

subsection \<open>Auxiliary functions of the proofs about the Gamma function\<close>

text \<open>
  The logarithm of the quotient of two successive terms of the sequence, for the proof
  that the sequence converges.
\<close>

definition Gamma_log_ratio :: "real \<Rightarrow> nat \<Rightarrow> real" where
  "Gamma_log_ratio x n = x * ln (1 + 1 / real n) - ln (1 + x / real (Suc n))"

text \<open>
  For the value at \<open>1/2\<close>: the primitive of \<open>sin ^ n\<close> that vanishes at \<open>0\<close>, by the
  reduction formula, its value at \<open>pi / 2\<close> (the integral of \<open>sin ^ n\<close> from \<open>0\<close> to
  \<open>pi / 2\<close>), and the quotient \<open>n! / (1/2 (1/2 + 1) \<dots> (1/2 + n))\<close>.
\<close>

fun sin_power_primitive :: "nat \<Rightarrow> real \<Rightarrow> real" where
  "sin_power_primitive 0 x = x"
| "sin_power_primitive (Suc 0) x = 1 - cos x"
| "sin_power_primitive (Suc (Suc n)) x =
     (real (Suc n) * sin_power_primitive n x - sin x ^ Suc n * cos x) / real (Suc (Suc n))"

definition wallis_integral :: "nat \<Rightarrow> real" where
  "wallis_integral n = sin_power_primitive n (pi / 2)"


section \<open>The classifier\<close>

lemma is_integer_iff_Ints: "is_integer x \<longleftrightarrow> x \<in> \<int>"
  unfolding is_integer_def by (metis Ints_of_int of_int_floor)

lemma is_integer_of_int [simp]: "is_integer (of_int n)"
  by (simp add: is_integer_def)

lemma is_integerE:
  assumes "is_integer x"
  obtains n :: int where "x = of_int n"
  using assms unfolding is_integer_def by metis

text \<open>Evaluation at numerals.\<close>

lemma is_negative_integer_numeral [simp]:
  "is_negative_integer (- numeral n)" "\<not> is_negative_integer (numeral n)"
  "\<not> is_negative_integer 0" "\<not> is_negative_integer 1" "is_negative_integer (- 1)"
  by (simp_all add: is_negative_integer_def is_integer_def)

lemma py_int_of_int [simp]: "py_int (of_int n) = n"
  by (simp add: py_int_def)

lemma py_int_numeral [simp]:
  "py_int (numeral n) = numeral n" "py_int (- numeral n) = - numeral n"
  "py_int 0 = 0" "py_int 1 = 1" "py_int (- 1) = - 1"
  using py_int_of_int [of "numeral n"] py_int_of_int [of "- numeral n"]
    py_int_of_int [of 0] py_int_of_int [of 1] py_int_of_int [of "- 1"]
  by simp_all

text \<open>
  C8: \<open>is_negative_integer x\<close> holds exactly when \<open>x\<close> is an integer and \<open>x < 0\<close>; it
  holds of \<open>-2.0\<close> and fails of \<open>-2.5\<close>, \<open>2.0\<close> and \<open>0.0\<close>.
\<close>

theorem is_negative_integer_iff:
  "(is_negative_integer x \<longleftrightarrow> x \<in> \<int> \<and> x < 0)
   \<and> is_negative_integer (-2.0)
   \<and> \<not> is_negative_integer (-2.5)
   \<and> \<not> is_negative_integer 2.0
   \<and> \<not> is_negative_integer 0.0"
proof -
  have "is_negative_integer x \<longleftrightarrow> x \<in> \<int> \<and> x < 0"
    by (simp add: is_negative_integer_def is_integer_iff_Ints)
  moreover have "is_negative_integer (-2.0)"
    by (simp add: is_negative_integer_def is_integer_def)
  moreover have "\<not> is_negative_integer (-2.5)"
    by (simp add: is_negative_integer_def is_integer_def)
  moreover have "\<not> is_negative_integer 2.0"
    by (simp add: is_negative_integer_def)
  moreover have "\<not> is_negative_integer 0.0"
    by (simp add: is_negative_integer_def)
  ultimately show ?thesis by blast
qed

section \<open>The Gamma function off its poles\<close>

text \<open>
  A pole is a non-positive integer. Off the poles no factor of the product vanishes, and
  from some index on the quotient of successive terms is the exponential of
  \<open>Gamma_log_ratio\<close>, whose series converges absolutely: the sequence has a limit, and
  the limit is not zero.
\<close>

lemma Gamma_prod_nonzero:
  assumes "\<not> (is_integer x \<and> x \<le> 0)"
  shows "(\<Prod>k\<le>n. x + real k) \<noteq> 0"
proof
  assume "(\<Prod>k\<le>n. x + real k) = 0"
  then obtain k where "x + real k = 0"
    by (auto simp: prod_zero_iff)
  then have "x = of_int (- int k)" by simp
  then have "is_integer x \<and> x \<le> 0"
    by (metis is_integer_of_int of_int_0_le_iff of_int_minus neg_le_0_iff_le of_nat_0_le_iff of_int_of_nat_eq)
  with assms show False by blast
qed

lemma Gamma_seq_nonzero:
  assumes "\<not> (is_integer x \<and> x \<le> 0)" and "0 < n"
  shows "Gamma_seq x n \<noteq> 0"
  using Gamma_prod_nonzero [OF assms(1), of n] assms(2)
  by (simp add: Gamma_seq_def)

lemma Gamma_ratio_algebra:
  fixes A B P Q m s :: real
  assumes "P \<noteq> 0" "s \<noteq> 0" "Q \<noteq> 0"
  shows "A * (m * B) / (P * s) = (Q * B / P) * ((A / Q) * (m / s))"
  using assms by (simp add: field_simps)

lemma Gamma_seq_Suc:
  assumes "\<not> (is_integer x \<and> x \<le> 0)" and "0 < n"
  shows "Gamma_seq x (Suc n) =
    Gamma_seq x n * ((real (Suc n) / real n) powr x * (real (Suc n) / (x + real (Suc n))))"
proof -
  have p: "(\<Prod>k\<le>n. x + real k) \<noteq> 0" "(\<Prod>k\<le>Suc n. x + real k) \<noteq> 0"
    using assms(1) by (rule Gamma_prod_nonzero)+
  then have s: "x + real (Suc n) \<noteq> 0" by auto
  have q: "real n powr x \<noteq> 0" using assms(2) by simp
  have "Gamma_seq x (Suc n) =
      real (Suc n) powr x * (real (Suc n) * fact n) / ((\<Prod>k\<le>n. x + real k) * (x + real (Suc n)))"
    by (simp add: Gamma_seq_def)
  also have "\<dots> = (real n powr x * fact n / (\<Prod>k\<le>n. x + real k))
      * ((real (Suc n) powr x / real n powr x) * (real (Suc n) / (x + real (Suc n))))"
    using p(1) s q by (rule Gamma_ratio_algebra)
  finally show ?thesis
    by (simp add: Gamma_seq_def powr_divide)
qed

lemma Gamma_ratio_exp:
  assumes "0 < n" and "0 < x + real (Suc n)"
  shows "(real (Suc n) / real n) powr x * (real (Suc n) / (x + real (Suc n)))
    = exp (Gamma_log_ratio x n)"
proof -
  have a: "real (Suc n) / real n = 1 + 1 / real n"
    using assms(1) by (simp add: field_simps)
  have a_pos: "0 < 1 + 1 / real n"
    using assms(1) by (simp add: add_pos_nonneg)
  have b: "1 + x / real (Suc n) = (x + real (Suc n)) / real (Suc n)"
    by (simp add: field_simps)
  have b_pos: "0 < 1 + x / real (Suc n)"
    unfolding b using assms(2) by (intro divide_pos_pos) simp_all
  have p1: "(real (Suc n) / real n) powr x = exp (x * ln (1 + 1 / real n))"
    unfolding a using a_pos by (simp add: powr_def)
  have "real (Suc n) / (x + real (Suc n)) = inverse (1 + x / real (Suc n))"
    unfolding b by (simp add: field_simps)
  also have "\<dots> = exp (- ln (1 + x / real (Suc n)))"
    using b_pos by (simp add: exp_minus)
  finally have p2: "real (Suc n) / (x + real (Suc n)) = exp (- ln (1 + x / real (Suc n)))" .
  show ?thesis
    unfolding p1 p2 mult_exp_exp Gamma_log_ratio_def by simp
qed

lemma Gamma_log_ratio_bound:
  assumes "2 \<le> n" and "2 * \<bar>x\<bar> \<le> real n"
  shows "\<bar>Gamma_log_ratio x n\<bar> \<le> (3 * \<bar>x\<bar> + 2 * x\<^sup>2) * (1 / (real n)\<^sup>2)"
proof -
  define u where "u = 1 / real n"
  define v where "v = x / real (Suc n)"
  define e1 where "e1 = ln (1 + u) - u"
  define e2 where "e2 = ln (1 + v) - v"
  have n_pos: "0 < real n" using assms(1) by simp
  have u_bound: "\<bar>u\<bar> \<le> 1 / 2"
    using assms(1) n_pos by (simp add: u_def field_simps)
  have "\<bar>v\<bar> = \<bar>x\<bar> / real (Suc n)" by (simp add: v_def)
  also have "\<dots> \<le> \<bar>x\<bar> / real n"
    using n_pos by (intro divide_left_mono) simp_all
  finally have v_le: "\<bar>v\<bar> \<le> \<bar>x\<bar> / real n" .
  also have "\<dots> \<le> 1 / 2"
    using assms(2) n_pos by (simp add: field_simps)
  finally have v_bound: "\<bar>v\<bar> \<le> 1 / 2" .
  have e1: "\<bar>e1\<bar> \<le> 2 * u\<^sup>2"
    unfolding e1_def using u_bound by (rule abs_ln_one_plus_x_minus_x_bound)
  have "\<bar>e2\<bar> \<le> 2 * v\<^sup>2"
    unfolding e2_def using v_bound by (rule abs_ln_one_plus_x_minus_x_bound)
  also have "v\<^sup>2 = \<bar>v\<bar>\<^sup>2" by simp
  also have "\<bar>v\<bar>\<^sup>2 \<le> (\<bar>x\<bar> / real n)\<^sup>2"
    using v_le by (intro power_mono) simp_all
  finally have e2: "\<bar>e2\<bar> \<le> 2 * (\<bar>x\<bar> / real n)\<^sup>2" by simp
  have split: "Gamma_log_ratio x n = x * (u - 1 / real (Suc n)) + x * e1 - e2"
    by (simp add: Gamma_log_ratio_def u_def v_def e1_def e2_def algebra_simps)
  have "u - 1 / real (Suc n) = 1 / (real n * real (Suc n))"
    using n_pos by (simp add: u_def field_simps)
  moreover have "1 / (real n * real (Suc n)) \<le> 1 / (real n * real n)"
    using n_pos by (intro divide_left_mono mult_left_mono) simp_all
  moreover have "0 \<le> 1 / (real n * real (Suc n))" by simp
  ultimately have d: "\<bar>u - 1 / real (Suc n)\<bar> \<le> 1 / (real n)\<^sup>2"
    by (simp add: power2_eq_square)
  have "\<bar>Gamma_log_ratio x n\<bar> \<le> \<bar>x\<bar> * \<bar>u - 1 / real (Suc n)\<bar> + \<bar>x\<bar> * \<bar>e1\<bar> + \<bar>e2\<bar>"
    unfolding split by (simp add: abs_mult [symmetric])
  also have "\<dots> \<le> \<bar>x\<bar> * (1 / (real n)\<^sup>2) + \<bar>x\<bar> * (2 * u\<^sup>2) + 2 * (\<bar>x\<bar> / real n)\<^sup>2"
    using d e1 e2 by (intro add_mono mult_left_mono) simp_all
  also have "\<dots> = (3 * \<bar>x\<bar> + 2 * x\<^sup>2) * (1 / (real n)\<^sup>2)"
    by (simp add: u_def power_divide algebra_simps)
  finally show ?thesis .
qed

lemma summable_inverse_square: "summable (\<lambda>n. 1 / (real n)\<^sup>2)"
proof -
  have "(\<lambda>n. 1 / real (Suc n)) \<longlonglongrightarrow> 0"
    using LIMSEQ_inverse_real_of_nat by (simp add: inverse_eq_divide)
  then have t: "summable (\<lambda>n. 1 / real (Suc n) - 1 / real (Suc (Suc n)))"
    by (rule telescope_summable')
  have "summable (\<lambda>n. 1 / (real (Suc (Suc n)))\<^sup>2)"
  proof (rule summable_comparison_test' [OF t, of 0])
    fix n :: nat
    have "1 / (real (Suc (Suc n)))\<^sup>2 \<le> 1 / (real (Suc n) * real (Suc (Suc n)))"
      unfolding power2_eq_square by (intro divide_left_mono mult_right_mono) simp_all
    also have "\<dots> = 1 / real (Suc n) - 1 / real (Suc (Suc n))"
      by (simp add: field_simps)
    finally show "norm (1 / (real (Suc (Suc n)))\<^sup>2) \<le> 1 / real (Suc n) - 1 / real (Suc (Suc n))"
      by simp
  qed
  then have "summable (\<lambda>n. (\<lambda>m. 1 / (real (Suc m))\<^sup>2) (Suc n))" .
  then have "summable (\<lambda>m. 1 / (real (Suc m))\<^sup>2)"
    by (rule summable_Suc_iff [THEN iffD1])
  then have "summable (\<lambda>n. (\<lambda>m. 1 / (real m)\<^sup>2) (Suc n))" .
  then show ?thesis
    by (rule summable_Suc_iff [THEN iffD1])
qed

lemma Gamma_log_ratio_summable: "summable (Gamma_log_ratio x)"
proof (rule summable_comparison_test_ev)
  show "summable (\<lambda>n. (3 * \<bar>x\<bar> + 2 * x\<^sup>2) * (1 / (real n)\<^sup>2))"
    using summable_inverse_square by (rule summable_mult)
  have "\<forall>\<^sub>F n in sequentially. max 2 (nat \<lceil>2 * \<bar>x\<bar>\<rceil>) \<le> n"
    by (rule eventually_ge_at_top)
  then show "\<forall>\<^sub>F n in sequentially.
      norm (Gamma_log_ratio x n) \<le> (3 * \<bar>x\<bar> + 2 * x\<^sup>2) * (1 / (real n)\<^sup>2)"
  proof eventually_elim
    case (elim n)
    then have "2 \<le> n" and "nat \<lceil>2 * \<bar>x\<bar>\<rceil> \<le> n" by simp_all
    then have "2 * \<bar>x\<bar> \<le> real n" by linarith
    with \<open>2 \<le> n\<close> show ?case
      using Gamma_log_ratio_bound by simp
  qed
qed

lemma Gamma_seq_tail:
  assumes x: "\<not> (is_integer x \<and> x \<le> 0)" and N: "0 < N"
    and pos: "\<And>n. N \<le> n \<Longrightarrow> 0 < x + real (Suc n)"
  shows "Gamma_seq x (N + m) = Gamma_seq x N * exp (\<Sum>i<m. Gamma_log_ratio x (N + i))"
proof (induction m)
  case 0
  then show ?case by simp
next
  case (Suc m)
  have "Gamma_seq x (N + Suc m) = Gamma_seq x (Suc (N + m))" by simp
  also have "\<dots> = Gamma_seq x (N + m)
      * ((real (Suc (N + m)) / real (N + m)) powr x
          * (real (Suc (N + m)) / (x + real (Suc (N + m)))))"
    using x N by (intro Gamma_seq_Suc) simp_all
  also have "(real (Suc (N + m)) / real (N + m)) powr x
          * (real (Suc (N + m)) / (x + real (Suc (N + m)))) = exp (Gamma_log_ratio x (N + m))"
    using N pos [of "N + m"] by (intro Gamma_ratio_exp) simp_all
  finally show ?case
    unfolding Suc.IH by (simp add: exp_add)
qed

lemma Gamma_seq_tendsto:
  assumes x: "\<not> (is_integer x \<and> x \<le> 0)"
  obtains L where "L \<noteq> 0" and "Gamma_seq x \<longlonglongrightarrow> L"
proof -
  define N where "N = max 1 (nat \<lceil>- x\<rceil>)"
  have N: "0 < N" by (simp add: N_def)
  have pos: "0 < x + real (Suc n)" if "N \<le> n" for n
  proof -
    from that have "nat \<lceil>- x\<rceil> \<le> n" by (simp add: N_def)
    then have "- x \<le> real n" by linarith
    then show ?thesis by simp
  qed
  define S where "S = (\<Sum>i. Gamma_log_ratio x (i + N))"
  have "summable (\<lambda>i. Gamma_log_ratio x (i + N))"
    using Gamma_log_ratio_summable [of x] by (simp only: summable_iff_shift)
  then have "(\<lambda>m. \<Sum>i<m. Gamma_log_ratio x (i + N)) \<longlonglongrightarrow> S"
    unfolding S_def by (rule summable_LIMSEQ)
  then have "(\<lambda>m. Gamma_seq x N * exp (\<Sum>i<m. Gamma_log_ratio x (i + N)))
      \<longlonglongrightarrow> Gamma_seq x N * exp S"
    by (intro tendsto_intros)
  then have "(\<lambda>m. Gamma_seq x (m + N)) \<longlonglongrightarrow> Gamma_seq x N * exp S"
    using Gamma_seq_tail [OF x N pos] by (simp add: add.commute)
  then have "Gamma_seq x \<longlonglongrightarrow> Gamma_seq x N * exp S"
    by (rule LIMSEQ_offset)
  moreover have "Gamma_seq x N * exp S \<noteq> 0"
    using Gamma_seq_nonzero [OF x N] by simp
  ultimately show ?thesis using that by blast
qed

lemma Gamma_seq_LIMSEQ:
  assumes "\<not> (is_integer x \<and> x \<le> 0)"
  shows "Gamma_seq x \<longlonglongrightarrow> Gamma x"
proof -
  from assms obtain L where "Gamma_seq x \<longlonglongrightarrow> L"
    by (rule Gamma_seq_tendsto)
  then show ?thesis
    unfolding Gamma_def by (simp add: limI)
qed

lemma Gamma_nonzero:
  assumes "\<not> (is_integer x \<and> x \<le> 0)"
  shows "Gamma x \<noteq> 0"
proof -
  from assms obtain L where L: "L \<noteq> 0" "Gamma_seq x \<longlonglongrightarrow> L"
    by (rule Gamma_seq_tendsto)
  then have "Gamma x = L"
    unfolding Gamma_def by (simp add: limI)
  with L(1) show ?thesis by simp
qed

lemma Gamma_shift_algebra:
  fixes B P Q m s x :: real
  assumes "P \<noteq> 0" "s \<noteq> 0" "x \<noteq> 0"
  shows "Q * m * B / (P * s / x) = Q * B / P * x * (m / s)"
  using assms by (simp add: field_simps)

lemma Gamma_seq_plus1:
  assumes x: "\<not> (is_integer x \<and> x \<le> 0)" and n: "0 < n"
  shows "Gamma_seq (x + 1) n = Gamma_seq x n * x * (real n / (x + real (Suc n)))"
proof -
  have p: "(\<Prod>k\<le>n. x + real k) \<noteq> 0" "(\<Prod>k\<le>Suc n. x + real k) \<noteq> 0"
    using x by (rule Gamma_prod_nonzero)+
  then have s: "x + real (Suc n) \<noteq> 0" by auto
  have x0: "x \<noteq> 0" using x by (auto simp: is_integer_def)
  have "(\<Prod>k\<le>n. (x + 1) + real k) = (\<Prod>k\<le>n. x + real (Suc k))"
    by (intro prod.cong) simp_all
  moreover have "(\<Prod>k\<le>Suc n. x + real k) = x * (\<Prod>k\<le>n. x + real (Suc k))"
    by (subst prod.atMost_Suc_shift) simp
  moreover have "(\<Prod>k\<le>Suc n. x + real k) = (\<Prod>k\<le>n. x + real k) * (x + real (Suc n))"
    by (rule prod.atMost_Suc)
  ultimately have P: "(\<Prod>k\<le>n. (x + 1) + real k) = (\<Prod>k\<le>n. x + real k) * (x + real (Suc n)) / x"
    using x0 by (simp add: field_simps)
  have Q: "real n powr (x + 1) = real n powr x * real n"
    using n by (simp add: powr_add)
  show ?thesis
    unfolding Gamma_seq_def P Q using p(1) s x0 by (rule Gamma_shift_algebra)
qed

lemma Gamma_plus1:
  assumes x: "\<not> (is_integer x \<and> x \<le> 0)"
  shows "Gamma (x + 1) = x * Gamma x"
proof -
  have "(\<lambda>n. real n / (x + real (Suc n))) \<longlonglongrightarrow> 1"
  proof -
    have "(\<lambda>n. 1 / (1 + (x + 1) * inverse (real (Suc n)) )) \<longlonglongrightarrow> 1 / (1 + (x + 1) * 0)"
      by (intro tendsto_intros LIMSEQ_inverse_real_of_nat) simp
    then have "(\<lambda>n. 1 / (1 + (x + 1) * inverse (real (Suc n)) )) \<longlonglongrightarrow> 1" by simp
    moreover have "1 / (1 + (x + 1) * inverse (real (Suc n))) = real (Suc n) / (x + real (Suc (Suc n)))" for n
      by (simp add: field_simps)
    ultimately have "(\<lambda>n. real (Suc n) / (x + real (Suc (Suc n)))) \<longlonglongrightarrow> 1" by simp
    then show ?thesis
      by (rule LIMSEQ_imp_Suc)
  qed
  then have "(\<lambda>n. Gamma_seq x n * x * (real n / (x + real (Suc n)))) \<longlonglongrightarrow> Gamma x * x * 1"
    by (intro tendsto_intros Gamma_seq_LIMSEQ [OF x])
  moreover have "\<forall>\<^sub>F n in sequentially. Gamma_seq x n * x * (real n / (x + real (Suc n))) = Gamma_seq (x + 1) n"
    using eventually_gt_at_top [of 0] by eventually_elim (simp add: Gamma_seq_plus1 [OF x])
  ultimately have "Gamma_seq (x + 1) \<longlonglongrightarrow> Gamma x * x * 1"
    by (rule Lim_transform_eventually)
  then show ?thesis
    unfolding Gamma_def [of "x + 1"] by (simp add: limI)
qed

lemma Gamma_1: "Gamma 1 = 1"
proof -
  have "Gamma_seq 1 n = real n / real (Suc n)" for n
  proof -
    have "(\<Prod>k\<le>n. 1 + real k) = fact (Suc n)"
      by (induction n) (simp_all add: algebra_simps)
    then show ?thesis
      by (cases "n = 0") (simp_all add: Gamma_seq_def)
  qed
  moreover have "(\<lambda>n. real n / real (Suc n)) \<longlonglongrightarrow> 1"
  proof -
    have "(\<lambda>n. 1 - inverse (real (Suc n))) \<longlonglongrightarrow> 1 - 0"
      by (intro tendsto_intros LIMSEQ_inverse_real_of_nat)
    moreover have "1 - inverse (real (Suc n)) = real n / real (Suc n)" for n
      by (simp add: field_simps)
    ultimately show ?thesis by simp
  qed
  ultimately have "Gamma_seq 1 \<longlonglongrightarrow> 1"
    by (simp add: ext [of "Gamma_seq 1" "\<lambda>n. real n / real (Suc n)"])
  then show ?thesis
    unfolding Gamma_def by (simp add: limI)
qed

text \<open>On the positive integers the function is the factorial, as the specification says.\<close>

lemma Gamma_fact: "Gamma (real n + 1) = fact n"
proof (induction n)
  case 0
  show ?case by (simp add: Gamma_1)
next
  case (Suc n)
  have "\<not> (is_integer (real n + 1) \<and> real n + 1 \<le> 0)" by simp
  then have "Gamma (real n + 1 + 1) = (real n + 1) * Gamma (real n + 1)"
    by (rule Gamma_plus1)
  then show ?case
    unfolding Suc.IH by (simp add: add.commute)
qed

section \<open>The values of the Gamma function at 3 and at 5/2\<close>


lemma sin_power_primitive_0 [simp]: "sin_power_primitive n 0 = 0"
  by (induction n "0 :: real" rule: sin_power_primitive.induct) simp_all

lemma wallis_integral_0: "wallis_integral 0 = pi / 2"
  by (simp add: wallis_integral_def)

lemma wallis_integral_1: "wallis_integral (Suc 0) = 1"
  by (simp add: wallis_integral_def)

lemma wallis_integral_Suc_Suc:
  "wallis_integral (Suc (Suc n)) = real (Suc n) / real (Suc (Suc n)) * wallis_integral n"
  by (simp add: wallis_integral_def)

lemma wallis_integral_pos: "0 < wallis_integral n"
proof -
  have "0 < wallis_integral n \<and> 0 < wallis_integral (Suc n)"
  proof (induction n)
    case 0
    show ?case by (simp add: wallis_integral_0 wallis_integral_1)
  next
    case (Suc n)
    then have "0 < real (Suc n) / real (Suc (Suc n)) * wallis_integral n"
      by (intro mult_pos_pos divide_pos_pos) simp_all
    with Suc show ?case by (simp only: wallis_integral_Suc_Suc)
  qed
  then show ?thesis ..
qed















section \<open>The branch of two negative integers\<close>

text \<open>When \<open>k\<close> and \<open>k - a\<close> are negative integers, so is the order an integer.\<close>

lemma both_negative_integers_order:
  assumes "is_negative_integer k" "is_negative_integer (k - a)"
  obtains m j :: int where "k = of_int m" "a = of_int (m - j)" "m < 0" "j < 0"
proof -
  from assms obtain m :: int where m: "k = of_int m"
    unfolding is_negative_integer_def by (auto elim: is_integerE)
  from assms obtain j :: int where j: "k - a = of_int j"
    unfolding is_negative_integer_def by (auto elim: is_integerE)
  have "a = of_int (m - j)" using m j by simp
  moreover have "m < 0" using assms(1) m by (simp add: is_negative_integer_def)
  moreover have "j < 0" using assms(2) j by (simp add: is_negative_integer_def)
  ultimately show ?thesis using m that by blast
qed


lemma integ_loop_funpow:
  "\<forall>d \<in> set (integ_divisors n k). d \<noteq> 0 \<Longrightarrow>
   integ_loop n c k = Inr ((spec_integ_step ^^ n) (c, k))"
  by (induction n arbitrary: c k) (simp_all add: funpow_swap1 spec_integ_step_def)

lemma set_integ_divisors: "set (integ_divisors n k) = (\<lambda>i. k + real i + 1) ` {..<n}"
proof (induction n arbitrary: k)
  case 0
  then show ?case by simp
next
  case (Suc n)
  have "{..<Suc n} = insert 0 (Suc ` {..<n})"
    by (simp add: lessThan_Suc_eq_insert_0)
  then show ?case using Suc by (simp add: image_image add.assoc add.commute)
qed

text \<open>
  The loop counts up from \<open>k + 1\<close> and stops at \<open>k - a\<close>, a negative integer: no
  divisor exceeds \<open>-1\<close>.
\<close>

lemma integ_divisors_le:
  assumes "is_negative_integer k" "is_negative_integer (k - a)"
  shows "\<forall>d \<in> set (integ_divisors (nat (- py_int a)) k). d \<le> - 1"
proof -
  from assms obtain m j :: int
    where mj: "k = of_int m" "a = of_int (m - j)" "m < 0" "j < 0"
    by (rule both_negative_integers_order)
  show ?thesis
  proof
    fix d assume "d \<in> set (integ_divisors (nat (- py_int a)) k)"
    then obtain i where i: "i < nat (j - m)" "d = k + real i + 1"
      unfolding set_integ_divisors mj(2) py_int_of_int by auto
    from i(1) have "int i + 1 \<le> j - m" by linarith
    then have "real_of_int (int i + 1) \<le> real_of_int (j - m)"
      by (rule of_int_le_iff [THEN iffD2])
    then have "d \<le> of_int j" using i(2) mj(1) by simp
    moreover have "real_of_int j \<le> - 1" using mj(4) by linarith
    ultimately show "d \<le> - 1" by linarith
  qed
qed



text \<open>
  C9: in the integration loop of this branch (\<open>order < 0\<close>) every divisor \<open>power + 1\<close>
  is at most \<open>-1\<close>, so the loop is all the call does and it never divides by zero.
\<close>

theorem integration_loop_divisor_nonzero:
  assumes "is_negative_integer pwr" and "is_negative_integer (pwr - a)" and "a < 0"
  shows "(\<forall>d \<in> set (integ_divisors (nat (- py_int a)) pwr). d \<le> - 1)
       \<and> analytical_frac_diff const pwr a = integ_loop (nat (- py_int a)) const pwr
       \<and> integ_loop (nat (- py_int a)) const pwr \<noteq> Inl ZeroDivisionError"
proof -
  have le: "\<forall>d \<in> set (integ_divisors (nat (- py_int a)) pwr). d \<le> - 1"
    using assms(1,2) by (rule integ_divisors_le)
  then have "\<forall>d \<in> set (integ_divisors (nat (- py_int a)) pwr). d \<noteq> 0"
    by fastforce
  then have "integ_loop (nat (- py_int a)) const pwr \<noteq> Inl ZeroDivisionError"
    by (simp add: integ_loop_funpow)
  moreover have "analytical_frac_diff const pwr a = integ_loop (nat (- py_int a)) const pwr"
    using assms by (simp add: analytical_frac_diff_def)
  ultimately show ?thesis using le by blast
qed

theorem integration_loop_divisor_nonzero_witness:
  "is_negative_integer (- 3) \<and> is_negative_integer (- 3 - (- 2)) \<and> (- 2 :: real) < 0
   \<and> integ_divisors (nat (- py_int (- 2))) (- 3) = [- 2, - 1]
   \<and> analytical_frac_diff 1 (- 3) (- 2) = integ_loop (nat (- py_int (- 2))) 1 (- 3)
   \<and> integ_loop (nat (- py_int (- 2))) 1 (- 3) = Inr (1 / 2, - 1)"
proof -
  have h1: "is_negative_integer (- 3)" by simp
  have h2: "is_negative_integer (- 3 - (- 2))" by simp
  have h3: "(- 2 :: real) < 0" by simp
  have "integ_divisors (nat (- py_int (- 2))) (- 3) = [- 2, - 1]"
    by (simp add: eval_nat_numeral)
  moreover have "integ_loop (nat (- py_int (- 2))) 1 (- 3) = Inr (1 / 2, - 1)"
    by (simp add: eval_nat_numeral)
  ultimately show ?thesis
    using integration_loop_divisor_nonzero [OF h1 h2 h3, of 1] h1 h2 h3 by blast
qed

section \<open>The placeholder branch\<close>



text \<open>
  C4, as the specification has it: \<open>differentiate(1, -1, 1)\<close> is the placeholder
  \<open>(0.0, 0.0)\<close>. It is not: \<open>-1\<close> and \<open>-1 - 1 = -2\<close> are both negative integers, so
  the call takes the power-rule branch.
\<close>

theorem differentiate_1_m1_1_not_placeholder:
  "analytical_frac_diff 1 (- 1) 1 \<noteq> Inr (0, 0)"
  by (simp add: analytical_frac_diff_def)

text \<open>
  C4, amended: \<open>differentiate(1, -1, 1)\<close> returns \<open>(-1, -2)\<close>, the derivative
  \<open>-x^-2\<close> of \<open>x^-1\<close>; the placeholder \<open>(0.0, 0.0)\<close> is what
  \<open>differentiate(1, -1, -1)\<close>, the integral of \<open>x^-1\<close>, returns.
\<close>

theorem differentiate_1_m1_1:
  "analytical_frac_diff 1 (- 1) 1 = Inr (- 1, - 2)
   \<and> analytical_frac_diff 1 (- 1) (- 1) = Inr (0, 0)"
  by (simp add: analytical_frac_diff_def)

section \<open>The general branch\<close>

text \<open>
  The branch is reached when neither \<open>power\<close> nor \<open>power - order\<close> is a negative
  integer. Both arguments handed to \<^verbatim>\<open>gamma\<close> are these values plus one, and \<open>x + 1\<close>
  is a pole exactly when \<open>x\<close> is a negative integer.
\<close>

lemma pole_plus1_iff: "is_integer (x + 1) \<and> x + 1 \<le> 0 \<longleftrightarrow> is_negative_integer x"
proof
  assume "is_integer (x + 1) \<and> x + 1 \<le> 0"
  then obtain n :: int where n: "x + 1 = of_int n" "x + 1 \<le> 0"
    by (auto elim: is_integerE)
  then have "x = of_int (n - 1)" by simp
  moreover from n have "n \<le> 0" by simp
  ultimately show "is_negative_integer x"
    unfolding is_negative_integer_def using is_integer_of_int [of "n - 1"] by simp
next
  assume "is_negative_integer x"
  then obtain n :: int where n: "x = of_int n" "x < 0"
    by (auto simp: is_negative_integer_def elim: is_integerE)
  then have "x + 1 = of_int (n + 1)" by simp
  moreover from n have "n + 1 \<le> 0" by simp
  ultimately show "is_integer (x + 1) \<and> x + 1 \<le> 0"
    using is_integer_of_int [of "n + 1"]
    by (metis of_int_le_0_iff)
qed

lemma gamma_plus1:
  assumes "\<not> is_negative_integer x"
  shows "gamma (x + 1) = Inr (Gamma (x + 1))" and "Gamma (x + 1) \<noteq> 0"
proof -
  from assms have np: "\<not> (is_integer (x + 1) \<and> x + 1 \<le> 0)"
    by (simp only: pole_plus1_iff not_False_eq_True)
  then show "gamma (x + 1) = Inr (Gamma (x + 1))"
    unfolding gamma_def by (simp only: if_False)
  from np show "Gamma (x + 1) \<noteq> 0"
    by (rule Gamma_nonzero)
qed

lemma general_branch:
  assumes "\<not> is_negative_integer pwr" and "\<not> is_negative_integer (pwr - a)"
  shows "analytical_frac_diff const pwr a =
    Inr (const * Gamma (pwr + 1) / Gamma (pwr - a + 1), pwr - a)"
  using assms gamma_plus1 [OF assms(1)] gamma_plus1 [OF assms(2)]
  by (simp add: analytical_frac_diff_def)

text \<open>
  Two checks of the specification on integers: \<open>x^3\<close> differentiated twice is \<open>6 x\<close>,
  and the integral of \<open>x^2\<close> is \<open>x^3 / 3\<close>.
\<close>

lemma classical_power_rule_examples:
  "analytical_frac_diff 1 3 2 = Inr (6, 1)"
  "analytical_frac_diff 1 2 (- 1) = Inr (1 / 3, 3)"
proof -
  have g: "Gamma 2 = 1" "Gamma 3 = 2" "Gamma 4 = 6"
    using Gamma_fact [of 1] Gamma_fact [of 2] Gamma_fact [of 3]
    by (simp_all add: eval_nat_numeral)
  have "analytical_frac_diff 1 3 2 = Inr (1 * Gamma (3 + 1) / Gamma (3 - 2 + 1), 3 - 2)"
    by (rule general_branch) simp_all
  then show "analytical_frac_diff 1 3 2 = Inr (6, 1)"
    by (simp add: g)
  have "analytical_frac_diff 1 2 (- 1) = Inr (1 * Gamma (2 + 1) / Gamma (2 - (- 1) + 1), 2 - (- 1))"
    by (rule general_branch) simp_all
  then show "analytical_frac_diff 1 2 (- 1) = Inr (1 / 3, 3)"
    by (simp add: g)
qed











section \<open>Homogeneity in the constant\<close>





end
